theory Spec2Isabelle
  imports Main "HOL-Library.Word" "HOL-Library.Multiset"
begin

section \<open>Work items and their ordering\<close>

text \<open>
  \<^verbatim>\<open>using Priority = std::int8_t;\<close> A priority is a signed 8-bit integer;
  \<open>sint\<close> reads it as two's complement and \<open><s\<close> is the signed comparison.
\<close>

type_synonym Priority = "8 word"

text \<open>
  \<^verbatim>\<open>struct WorkItem { std::function<void()> task; Priority priority; ... }\<close>
  The queue never looks into the task, so the record is polymorphic in it.
\<close>

record 't WorkItem =
  task :: 't
  priority :: Priority

text \<open>\<^verbatim>\<open>bool operator<(const WorkItem& other) const { return priority < other.priority; }\<close>\<close>

definition WorkItem_less :: "'t WorkItem \<Rightarrow> 't WorkItem \<Rightarrow> bool" where
  "WorkItem_less a other = (priority a <s priority other)"

section \<open>The containers behind the work queue\<close>

subsection \<open>The binary heap of \<open>std::priority_queue\<close>\<close>

text \<open>
  \<open>std::priority_queue<WorkItem>\<close> keeps its elements in a \<open>std::vector\<close> (here a list,
  index 0 first) and is defined by the C++ standard in terms of the heap algorithms:
  \<open>push(x)\<close> is \<open>c.push_back(x); std::push_heap(c.begin(), c.end(), comp)\<close>,
  \<open>pop()\<close> is \<open>std::pop_heap(c.begin(), c.end(), comp); c.pop_back()\<close>, \<open>top()\<close> is
  \<open>c.front()\<close>, and \<open>comp\<close> is \<open>std::less<WorkItem>\<close>, that is \<open>WorkItem::operator<\<close>.
  The heap algorithms are those of libstdc++ (\<open>bits/stl_heap.h\<close>), statement by statement.

  \<open>__push_heap(first, holeIndex, topIndex, value, comp)\<close>: the hole moves up while the
  parent is less than the value:
  \<^verbatim>\<open>
  parent = (holeIndex - 1) / 2;
  while (holeIndex > topIndex && comp(first + parent, value)) {
      *(first + holeIndex) = *(first + parent);
      holeIndex = parent;
      parent = (holeIndex - 1) / 2;
  }
  *(first + holeIndex) = value;
  \<close>
  The index type is signed in C++ and \<open>(0 - 1) / 2\<close> is 0 there (division truncates), as
  \<open>(0 - 1) div 2\<close> is on \<open>nat\<close>.
\<close>

function push_heap_aux ::
  "'t WorkItem list \<Rightarrow> nat \<Rightarrow> nat \<Rightarrow> 't WorkItem \<Rightarrow> 't WorkItem list" where
  "push_heap_aux first holeIndex topIndex v =
     (if holeIndex > topIndex \<and> WorkItem_less (first ! ((holeIndex - 1) div 2)) v
      then push_heap_aux (first[holeIndex := first ! ((holeIndex - 1) div 2)])
             ((holeIndex - 1) div 2) topIndex v
      else first[holeIndex := v])"
  by pat_completeness auto
termination
  by (relation "measure (\<lambda>(first, holeIndex, topIndex, v). holeIndex)") auto

declare push_heap_aux.simps [simp del]

text \<open>
  \<open>std::push_heap(first, last)\<close>:
  \<^verbatim>\<open>value = *(last - 1); __push_heap(first, (last - first) - 1, 0, value, comp);\<close>
\<close>

definition push_heap :: "'t WorkItem list \<Rightarrow> 't WorkItem list" where
  "push_heap c = push_heap_aux c (length c - 1) 0 (c ! (length c - 1))"

text \<open>
  The first loop of \<open>__adjust_heap(first, holeIndex, len, value, comp)\<close> moves the hole
  down to the bottom, each time to the child that is not less than the other:
  \<^verbatim>\<open>
  while (secondChild < (len - 1) / 2) {
      secondChild = 2 * (secondChild + 1);
      if (comp(first + secondChild, first + (secondChild - 1)))
          secondChild--;
      *(first + holeIndex) = *(first + secondChild);
      holeIndex = secondChild;
  }
  \<close>
  It returns the vector, \<open>holeIndex\<close> and \<open>secondChild\<close>.
\<close>

function adjust_heap_loop ::
  "'t WorkItem list \<Rightarrow> nat \<Rightarrow> nat \<Rightarrow> nat \<Rightarrow> 't WorkItem list \<times> nat \<times> nat" where
  "adjust_heap_loop first holeIndex secondChild len =
     (if secondChild < (len - 1) div 2
      then let sc = 2 * (secondChild + 1);
               sc' = (if WorkItem_less (first ! sc) (first ! (sc - 1)) then sc - 1 else sc)
           in adjust_heap_loop (first[holeIndex := first ! sc']) sc' sc' len
      else (first, holeIndex, secondChild))"
  by pat_completeness auto
termination
  by (relation "measure (\<lambda>(first, holeIndex, secondChild, len). len - secondChild)") auto

declare adjust_heap_loop.simps [simp del]

text \<open>
  The rest of \<open>__adjust_heap\<close>: a last node with a single child, then the value is
  pushed up from the hole:
  \<^verbatim>\<open>
  topIndex = holeIndex; secondChild = holeIndex;
  <the loop>
  if ((len & 1) == 0 && secondChild == (len - 2) / 2) {
      secondChild = 2 * (secondChild + 1);
      *(first + holeIndex) = *(first + (secondChild - 1));
      holeIndex = secondChild - 1;
  }
  __push_heap(first, holeIndex, topIndex, value, comp);
  \<close>
  It is only called with \<open>len \<ge> 1\<close>, where \<open>(len - 2) / 2\<close> is the same on \<open>nat\<close>.
\<close>

definition adjust_heap ::
  "'t WorkItem list \<Rightarrow> nat \<Rightarrow> nat \<Rightarrow> 't WorkItem \<Rightarrow> 't WorkItem list" where
  "adjust_heap first holeIndex len v =
     (let topIndex = holeIndex;
          (first1, holeIndex1, secondChild1) = adjust_heap_loop first holeIndex holeIndex len
      in if len mod 2 = 0 \<and> secondChild1 = (len - 2) div 2
         then let secondChild2 = 2 * (secondChild1 + 1)
              in push_heap_aux (first1[holeIndex1 := first1 ! (secondChild2 - 1)])
                   (secondChild2 - 1) topIndex v
         else push_heap_aux first1 holeIndex1 topIndex v)"

text \<open>
  \<open>std::pop_heap(first, last)\<close>:
  \<^verbatim>\<open>
  if (last - first > 1) {
      --last;
      value = *last; *last = *first;
      __adjust_heap(first, 0, last - first, value, comp);
  }
  \<close>
\<close>

definition pop_heap :: "'t WorkItem list \<Rightarrow> 't WorkItem list" where
  "pop_heap c =
     (if length c > 1
      then let last = length c - 1; v = c ! last
           in adjust_heap (c[last := c ! 0]) 0 last v
      else c)"

text \<open>The members of \<open>std::priority_queue\<close> (\<open>top\<close> needs a non-empty queue).\<close>

definition priority_queue_push :: "'t WorkItem list \<Rightarrow> 't WorkItem \<Rightarrow> 't WorkItem list" where
  "priority_queue_push c x = push_heap (c @ [x])"

definition priority_queue_top :: "'t WorkItem list \<Rightarrow> 't WorkItem" where
  "priority_queue_top c = c ! 0"

definition priority_queue_pop :: "'t WorkItem list \<Rightarrow> 't WorkItem list" where
  "priority_queue_pop c = butlast (pop_heap c)"

subsection \<open>\<open>std::queue\<close>\<close>

text \<open>
  \<open>std::queue<WorkItem>\<close> over a \<open>std::deque\<close>: \<open>push\<close> is \<open>push_back\<close>, \<open>front\<close> reads
  the first element, \<open>pop\<close> is \<open>pop_front\<close>.
\<close>

definition queue_push :: "'t WorkItem list \<Rightarrow> 't WorkItem \<Rightarrow> 't WorkItem list" where
  "queue_push c x = c @ [x]"

definition queue_front :: "'t WorkItem list \<Rightarrow> 't WorkItem" where
  "queue_front c = hd c"

definition queue_pop :: "'t WorkItem list \<Rightarrow> 't WorkItem list" where
  "queue_pop c = tl c"

section \<open>\<open>ThreadPool::WorkQueue\<close>\<close>

text \<open>
  The template parameter \<open>EnablePriorityScheduling\<close> chooses the container
  (\<open>std::conditional_t<EnablePriorityScheduling, std::priority_queue<WorkItem>,
  std::queue<WorkItem>>\<close>); it is the first argument of every operation here.
  \<^verbatim>\<open>
  void push(WorkItem work_item) { work_queue.push(std::move(work_item)); }
  WorkItem pop() {
      WorkItem work_item;
      if constexpr (EnablePriorityScheduling) { work_item = work_queue.top(); }
      else { work_item = work_queue.front(); }
      work_queue.pop();
      return work_item;
  }
  bool empty() const { return work_queue.empty(); }
  \<close>
  \<open>top()\<close> and \<open>front()\<close> on an empty container are undefined behaviour: \<open>pop\<close> is
  \<open>None\<close> there.
\<close>

definition WorkQueue_push :: "bool \<Rightarrow> 't WorkItem list \<Rightarrow> 't WorkItem \<Rightarrow> 't WorkItem list" where
  "WorkQueue_push EnablePriorityScheduling work_queue work_item =
     (if EnablePriorityScheduling then priority_queue_push work_queue work_item
      else queue_push work_queue work_item)"

definition WorkQueue_empty :: "'t WorkItem list \<Rightarrow> bool" where
  "WorkQueue_empty work_queue = (work_queue = [])"

definition WorkQueue_pop ::
  "bool \<Rightarrow> 't WorkItem list \<Rightarrow> ('t WorkItem \<times> 't WorkItem list) option" where
  "WorkQueue_pop EnablePriorityScheduling work_queue =
     (if work_queue = [] then None
      else if EnablePriorityScheduling
      then Some (priority_queue_top work_queue, priority_queue_pop work_queue)
      else Some (queue_front work_queue, queue_pop work_queue))"

text \<open>
  The items that \<open>n\<close> successive calls of \<open>pop\<close> return, in the order of the calls
  (it stops at an empty queue), and the queue built by pushing a list of items in order.
\<close>

fun pops :: "bool \<Rightarrow> nat \<Rightarrow> 't WorkItem list \<Rightarrow> 't WorkItem list" where
  "pops eps 0 q = []"
| "pops eps (Suc n) q =
     (case WorkQueue_pop eps q of None \<Rightarrow> [] | Some (w, q') \<Rightarrow> w # pops eps n q')"

definition pushes :: "bool \<Rightarrow> 't WorkItem list \<Rightarrow> 't WorkItem list \<Rightarrow> 't WorkItem list" where
  "pushes eps q ws = foldl (WorkQueue_push eps) q ws"

text \<open>The states of a work queue: empty at construction, then changed by push and pop only.\<close>

inductive queue_state :: "bool \<Rightarrow> 't WorkItem list \<Rightarrow> bool" for eps :: bool where
  queue_state_empty: "queue_state eps []"
| queue_state_push: "queue_state eps q \<Longrightarrow> queue_state eps (WorkQueue_push eps q w)"
| queue_state_pop: "queue_state eps q \<Longrightarrow> WorkQueue_pop eps q = Some (w, q') \<Longrightarrow> queue_state eps q'"

section \<open>Predicates used in the statements and proofs\<close>

text \<open>
  \<open>returned_before x y ws\<close>: in the sequence \<open>ws\<close> of returned items, \<open>x\<close> is returned
  before \<open>y\<close> is (if \<open>y\<close> is returned at all).
\<close>

definition returned_before :: "'a \<Rightarrow> 'a \<Rightarrow> 'a list \<Rightarrow> bool" where
  "returned_before x y ws = (x \<in> set (takeWhile (\<lambda>w. w \<noteq> y) ws))"

text \<open>The priority of a work item as an integer.\<close>

definition key :: "'t WorkItem \<Rightarrow> int" where
  "key w = sint (priority w)"

text \<open>
  The heap property of \<open>std::is_heap\<close> on the first \<open>n\<close> elements of a vector: no element
  is greater than its parent, the element at index \<open>(i - 1) div 2\<close>.
\<close>

definition heap_on :: "'t WorkItem list \<Rightarrow> nat \<Rightarrow> bool" where
  "heap_on xs n = (\<forall>i. 0 < i \<and> i < n \<longrightarrow> key (xs ! i) \<le> key (xs ! ((i - 1) div 2)))"

text \<open>
  The same with a hole at index \<open>h\<close>: the element at \<open>h\<close> may be greater than its parent,
  and the children of \<open>h\<close> are not greater than the parent of \<open>h\<close>.
\<close>

definition heap_except :: "'t WorkItem list \<Rightarrow> nat \<Rightarrow> nat \<Rightarrow> bool" where
  "heap_except xs n h =
     ((\<forall>i. 0 < i \<and> i < n \<and> i \<noteq> h \<longrightarrow> key (xs ! i) \<le> key (xs ! ((i - 1) div 2))) \<and>
      (\<forall>i. 0 < i \<and> i < n \<and> 0 < h \<and> (i - 1) div 2 = h \<longrightarrow> key (xs ! i) \<le> key (xs ! ((h - 1) div 2))))"

text \<open>
  What the first loop of \<open>adjust_heap\<close> establishes, started with the hole at \<open>h\<close>: the hole
  \<open>h'\<close> has no two children below \<open>len\<close>, the vector is still a heap, and putting any
  value in the hole gives the same elements as putting it in the old hole.
\<close>

definition descended ::
  "'t WorkItem list \<Rightarrow> nat \<Rightarrow> nat \<Rightarrow> 't WorkItem list \<times> nat \<times> nat \<Rightarrow> bool" where
  "descended xs h len r =
     (case r of (xs', h', sc') \<Rightarrow>
        h' = sc' \<and> h' < len \<and> \<not> h' < (len - 1) div 2 \<and> length xs' = length xs \<and>
        heap_on xs' len \<and> (\<forall>v. mset (xs'[h' := v]) = mset (xs[h := v])) \<and>
        (\<forall>i\<ge>len. xs' ! i = xs ! i))"

section \<open>The heap algorithms keep the heap property\<close>

lemma WorkItem_less_key: "WorkItem_less a b \<longleftrightarrow> key a < key b"
  by (simp add: WorkItem_less_def key_def word_sless_alt)

lemma parent_less: "0 < i \<Longrightarrow> (i - 1) div 2 < (i::nat)"
  by arith

lemma push_heap_aux_step:
  "topIndex < holeIndex \<Longrightarrow> WorkItem_less (first ! ((holeIndex - 1) div 2)) v \<Longrightarrow>
   push_heap_aux first holeIndex topIndex v =
   push_heap_aux (first[holeIndex := first ! ((holeIndex - 1) div 2)]) ((holeIndex - 1) div 2) topIndex v"
  by (subst push_heap_aux.simps) simp

lemma push_heap_aux_stop:
  "\<not> (topIndex < holeIndex \<and> WorkItem_less (first ! ((holeIndex - 1) div 2)) v) \<Longrightarrow>
   push_heap_aux first holeIndex topIndex v = first[holeIndex := v]"
  by (subst push_heap_aux.simps) auto

lemma length_push_heap_aux: "length (push_heap_aux xs h t v) = length xs"
proof (induction xs h t v rule: push_heap_aux.induct)
  case (1 first holeIndex topIndex v)
  then show ?case
    by (cases "holeIndex > topIndex \<and> WorkItem_less (first ! ((holeIndex - 1) div 2)) v")
      (simp_all only: push_heap_aux_step push_heap_aux_stop length_list_update simp_thms)
qed

lemma mset_update_swap:
  assumes "h < length xs" "p < length xs" "p \<noteq> h"
  shows "mset (xs[h := xs ! p, p := v]) = mset (xs[h := v])"
  using assms by (simp add: mset_update nth_list_update)

lemma mset_push_heap_aux:
  "h < length xs \<Longrightarrow> mset (push_heap_aux xs h t v) = mset (xs[h := v])"
proof (induction xs h t v rule: push_heap_aux.induct)
  case (1 first holeIndex topIndex v)
  show ?case
  proof (cases "holeIndex > topIndex \<and> WorkItem_less (first ! ((holeIndex - 1) div 2)) v")
    case True
    let ?p = "(holeIndex - 1) div 2"
    from True have hp: "0 < holeIndex" by simp
    then have p: "?p < holeIndex" by (rule parent_less)
    with "1.prems" have pl: "?p < length first" by simp
    have "mset (push_heap_aux first holeIndex topIndex v)
        = mset (push_heap_aux (first[holeIndex := first ! ?p]) ?p topIndex v)"
      using True by (simp only: push_heap_aux_step)
    also have "\<dots> = mset (first[holeIndex := first ! ?p, ?p := v])"
      using "1.IH" [OF True] pl by simp
    also have "\<dots> = mset (first[holeIndex := v])"
      using "1.prems" pl p by (intro mset_update_swap) simp_all
    finally show ?thesis .
  next
    case False
    then show ?thesis by (simp add: push_heap_aux_stop [OF False])
  qed
qed

lemma nth_push_heap_aux:
  "h < i \<Longrightarrow> push_heap_aux xs h t v ! i = xs ! i"
proof (induction xs h t v rule: push_heap_aux.induct)
  case (1 first holeIndex topIndex v)
  show ?case
  proof (cases "holeIndex > topIndex \<and> WorkItem_less (first ! ((holeIndex - 1) div 2)) v")
    case True
    let ?p = "(holeIndex - 1) div 2"
    from True have "?p < holeIndex" by (intro parent_less) simp
    with "1.prems" have "?p < i" by simp
    from "1.IH" [OF True this] "1.prems" True show ?thesis
      by (simp add: push_heap_aux_step)
  next
    case False
    with "1.prems" show ?thesis by (simp add: push_heap_aux_stop [OF False])
  qed
qed

lemma heap_push_heap_aux:
  "h < n \<Longrightarrow> n \<le> length xs \<Longrightarrow> heap_except (xs[h := v]) n h \<Longrightarrow>
   heap_on (push_heap_aux xs h 0 v) n"
proof (induction xs h "0::nat" v rule: push_heap_aux.induct)
  case (1 first holeIndex v)
  define p where "p = (holeIndex - 1) div 2"
  let ?ys = "first[holeIndex := v]"
  have ys: "?ys ! i = (if i = holeIndex then v else first ! i)" for i
    using "1.prems" by (simp add: nth_list_update)
  have ex1: "key (?ys ! i) \<le> key (?ys ! ((i - 1) div 2))" if "0 < i" "i < n" "i \<noteq> holeIndex" for i
    using "1.prems"(3) that unfolding heap_except_def by blast
  have ex2: "key (?ys ! i) \<le> key (?ys ! p)" if "0 < i" "i < n" "0 < holeIndex" "(i - 1) div 2 = holeIndex" for i
    using "1.prems"(3) that unfolding heap_except_def p_def by blast
  show ?case
  proof (cases "holeIndex > 0 \<and> WorkItem_less (first ! p) v")
    case True
    then have h0: "0 < holeIndex" and lt: "key (first ! p) < key v"
      by (simp_all add: WorkItem_less_key)
    have p: "p < holeIndex" unfolding p_def using h0 by (rule parent_less)
    let ?zs = "first[holeIndex := first ! p, p := v]"
    have len: "holeIndex < length first" "p < length first" using "1.prems" p by simp_all
    have zs: "?zs ! i = (if i = p then v else if i = holeIndex then first ! p else first ! i)" for i
      using len by (simp add: nth_list_update)
    have ex: "heap_except ?zs n p"
      unfolding heap_except_def
    proof (intro conjI allI impI)
      fix i assume i: "0 < i \<and> i < n \<and> i \<noteq> p"
      show "key (?zs ! i) \<le> key (?zs ! ((i - 1) div 2))"
      proof (cases "i = holeIndex")
        case True
        with lt p show ?thesis by (simp only: zs p_def [symmetric]) simp
      next
        case ih: False
        from i ih have a: "key (?ys ! i) \<le> key (?ys ! ((i - 1) div 2))"
          by (intro ex1) simp_all
        show ?thesis
        proof (cases "(i - 1) div 2 = p")
          case True
          with a i ih lt p show ?thesis by (simp only: zs ys) (simp split: if_splits)
        next
          case np: False
          show ?thesis
          proof (cases "(i - 1) div 2 = holeIndex")
            case True
            with i h0 have "key (?ys ! i) \<le> key (?ys ! p)"
              by (intro ex2) simp_all
            with True i ih p show ?thesis by (simp only: zs ys) (simp split: if_splits)
          next
            case False
            with a i ih np show ?thesis by (simp only: zs ys) simp
          qed
        qed
      qed
    next
      fix i assume i: "0 < i \<and> i < n \<and> 0 < p \<and> (i - 1) div 2 = p"
      define pp where "pp = (p - 1) div 2"
      have pp: "pp < p" unfolding pp_def using i by (intro parent_less) simp
      have ip: "p < i" using i parent_less [of i] by simp
      have "key (?ys ! p) \<le> key (?ys ! ((p - 1) div 2))"
        using i p "1.prems"(1) by (intro ex1) simp_all
      then have b: "key (first ! p) \<le> key (first ! pp)"
        using p pp by (simp only: ys pp_def [symmetric]) simp
      show "key (?zs ! i) \<le> key (?zs ! ((p - 1) div 2))"
      proof (cases "i = holeIndex")
        case True
        with b p pp show ?thesis by (simp only: zs pp_def [symmetric]) simp
      next
        case False
        with i have "key (?ys ! i) \<le> key (?ys ! ((i - 1) div 2))"
          by (intro ex1) simp_all
        with False i b p pp lt ip show ?thesis
          by (simp only: zs ys pp_def [symmetric]) (simp split: if_splits)
      qed
    qed
    have "heap_on (push_heap_aux (first[holeIndex := first ! p]) p 0 v) n"
      unfolding p_def
      using True p "1.prems"(1,2) ex len unfolding p_def by (intro "1.hyps") simp_all
    moreover have "push_heap_aux first holeIndex 0 v = push_heap_aux (first[holeIndex := first ! p]) p 0 v"
      unfolding p_def using True unfolding p_def by (intro push_heap_aux_step) simp_all
    ultimately show ?thesis by simp
  next
    case False
    have "heap_on ?ys n"
      unfolding heap_on_def
    proof (intro allI impI)
      fix i assume i: "0 < i \<and> i < n"
      show "key (?ys ! i) \<le> key (?ys ! ((i - 1) div 2))"
      proof (cases "i = holeIndex")
        case True
        with i have "p < i" unfolding p_def using parent_less [of i] by simp
        with True i False show ?thesis
          by (simp only: ys p_def [symmetric]) (simp add: WorkItem_less_key)
      next
        case False
        with i show ?thesis by (intro ex1) simp_all
      qed
    qed
    moreover have "push_heap_aux first holeIndex 0 v = ?ys"
      using False unfolding p_def by (intro push_heap_aux_stop) simp
    ultimately show ?thesis by simp
  qed
qed

lemma adjust_heap_loop_step:
  "secondChild < (len - 1) div 2 \<Longrightarrow>
   c = (if WorkItem_less (first ! (2 * (secondChild + 1))) (first ! (2 * (secondChild + 1) - 1))
        then 2 * (secondChild + 1) - 1 else 2 * (secondChild + 1)) \<Longrightarrow>
   adjust_heap_loop first holeIndex secondChild len =
   adjust_heap_loop (first[holeIndex := first ! c]) c c len"
  by (subst adjust_heap_loop.simps) (simp add: Let_def)

lemma adjust_heap_loop_stop:
  "\<not> secondChild < (len - 1) div 2 \<Longrightarrow>
   adjust_heap_loop first holeIndex secondChild len = (first, holeIndex, secondChild)"
  by (subst adjust_heap_loop.simps) simp

lemma heap_on_move_child_up:
  assumes heap: "heap_on xs len" and c: "c < len" "(c - 1) div 2 = h" "0 < c"
    and big: "\<forall>i. 0 < i \<and> i < len \<and> (i - 1) div 2 = h \<longrightarrow> key (xs ! i) \<le> key (xs ! c)"
    and len: "len \<le> length xs"
  shows "heap_on (xs[h := xs ! c]) len"
  unfolding heap_on_def
proof (intro allI impI)
  fix i assume i: "0 < i \<and> i < len"
  have hc: "h < c" using c parent_less [of c] by simp
  let ?zs = "xs[h := xs ! c]"
  have zs: "?zs ! j = (if j = h then xs ! c else xs ! j)" for j
    using hc c len by (simp add: nth_list_update)
  have up: "key (xs ! j) \<le> key (xs ! ((j - 1) div 2))" if "0 < j" "j < len" for j
    using heap that unfolding heap_on_def by blast
  define q where "q = (i - 1) div 2"
  have qi: "q < i" unfolding q_def using i parent_less [of i] by simp
  have upi: "key (xs ! i) \<le> key (xs ! q)" using up [of i] i unfolding q_def by simp
  have "key (?zs ! i) \<le> key (?zs ! q)"
  proof (cases "i = h")
    case True
    have "key (xs ! c) \<le> key (xs ! h)" using up [of c] c by simp
    with upi True qi show ?thesis by (simp only: zs) simp
  next
    case False
    show ?thesis
    proof (cases "q = h")
      case True
      then have "key (xs ! i) \<le> key (xs ! c)" using big i unfolding q_def by blast
      with True False show ?thesis by (simp only: zs) simp
    next
      case qh: False
      with False upi show ?thesis by (simp only: zs) simp
    qed
  qed
  then show "key (?zs ! i) \<le> key (?zs ! ((i - 1) div 2))" unfolding q_def .
qed

lemma children_of: "0 < i \<Longrightarrow> (i - 1) div 2 = h \<Longrightarrow> i = 2 * h + 1 \<or> i = 2 * h + (2::nat)"
  by arith

lemma adjust_heap_loop_descended:
  "h = sc \<Longrightarrow> heap_on xs len \<Longrightarrow> h < len \<Longrightarrow> len \<le> length xs \<Longrightarrow>
   descended xs h len (adjust_heap_loop xs h sc len)"
proof (induction xs h sc len rule: adjust_heap_loop.induct)
  case (1 first holeIndex secondChild len)
  note prems = "1.prems"
  show ?case
  proof (cases "secondChild < (len - 1) div 2")
    case True
    define sc where "sc = 2 * (secondChild + 1)"
    define c where "c = (if WorkItem_less (first ! sc) (first ! (sc - 1)) then sc - 1 else sc)"
    have sc: "sc < len" "sc = 2 * holeIndex + 2" using True prems(1) unfolding sc_def by arith+
    have c: "c < len" "0 < c" "(c - 1) div 2 = holeIndex" "holeIndex < c" "c = sc \<or> c = sc - 1"
      using sc unfolding c_def by (auto split: if_splits)
    have big: "\<forall>i. 0 < i \<and> i < len \<and> (i - 1) div 2 = holeIndex \<longrightarrow> key (first ! i) \<le> key (first ! c)"
    proof (intro allI impI)
      fix i assume i: "0 < i \<and> i < len \<and> (i - 1) div 2 = holeIndex"
      then have "i = sc - 1 \<or> i = sc" using children_of [of i holeIndex] sc by auto
      then show "key (first ! i) \<le> key (first ! c)"
        unfolding c_def by (auto simp: WorkItem_less_key)
    qed
    let ?zs = "first[holeIndex := first ! c]"
    have heap: "heap_on ?zs len"
      using prems c big by (intro heap_on_move_child_up) simp_all
    have eq: "adjust_heap_loop first holeIndex secondChild len = adjust_heap_loop ?zs c c len"
      using True unfolding c_def sc_def by (intro adjust_heap_loop_step) simp_all
    obtain xs' h' sc' where r: "adjust_heap_loop ?zs c c len = (xs', h', sc')"
      by (cases "adjust_heap_loop ?zs c c len") auto
    have "descended ?zs c len (adjust_heap_loop ?zs c c len)"
      using heap c prems by (intro "1.IH" [OF True sc_def c_def]) simp_all
    then have "h' = sc' \<and> h' < len \<and> \<not> h' < (len - 1) div 2 \<and> length xs' = length ?zs \<and>
        heap_on xs' len \<and> (\<forall>v. mset (xs'[h' := v]) = mset (?zs[c := v])) \<and>
        (\<forall>i\<ge>len. xs' ! i = ?zs ! i)"
      unfolding descended_def r prod.case .
    then have d: "h' = sc'" "h' < len" "\<not> h' < (len - 1) div 2" "length xs' = length ?zs"
      "heap_on xs' len" "\<And>v. mset (xs'[h' := v]) = mset (?zs[c := v])"
      "\<And>i. len \<le> i \<Longrightarrow> xs' ! i = ?zs ! i"
      by blast+
    have m: "mset (xs'[h' := v]) = mset (first[holeIndex := v])" for v
    proof -
      have "mset (first[holeIndex := first ! c, c := v]) = mset (first[holeIndex := v])"
        using prems c by (intro mset_update_swap) simp_all
      with d(6) show ?thesis by simp
    qed
    have u: "xs' ! i = first ! i" if "len \<le> i" for i
      using d(7) [OF that] that prems by simp
    have "descended first holeIndex len (adjust_heap_loop ?zs c c len)"
      unfolding descended_def r prod.case using d(1-5) m u by simp
    with eq show ?thesis by simp
  next
    case False
    with prems show ?thesis
      by (simp add: adjust_heap_loop_stop descended_def)
  qed
qed

lemma leaf_heap_except:
  assumes "heap_on xs n" "h < n" "n \<le> 2 * h + 1" "n \<le> length xs"
  shows "heap_except (xs[h := v]) n h"
  unfolding heap_except_def
proof (intro conjI allI impI)
  fix i assume i: "0 < i \<and> i < n \<and> i \<noteq> h"
  define q where "q = (i - 1) div 2"
  have "q \<noteq> h" using i assms(3) unfolding q_def by arith
  moreover have "key (xs ! i) \<le> key (xs ! q)"
    using assms(1) i unfolding heap_on_def q_def by blast
  ultimately have "key (xs[h := v] ! i) \<le> key (xs[h := v] ! q)"
    using i by simp
  then show "key (xs[h := v] ! i) \<le> key (xs[h := v] ! ((i - 1) div 2))"
    unfolding q_def .
next
  fix i assume i: "0 < i \<and> i < n \<and> 0 < h \<and> (i - 1) div 2 = h"
  then have False using assms(3) by arith
  then show "key (xs[h := v] ! i) \<le> key (xs[h := v] ! ((h - 1) div 2))" ..
qed

lemma adjust_heap_correct:
  assumes heap: "heap_on xs len" and len: "0 < len" "len \<le> length xs"
  shows "heap_on (adjust_heap xs 0 len v) len \<and>
         mset (adjust_heap xs 0 len v) = mset (xs[0 := v]) \<and>
         length (adjust_heap xs 0 len v) = length xs \<and>
         (\<forall>i\<ge>len. adjust_heap xs 0 len v ! i = xs ! i)"
proof -
  obtain xs1 h1 sc1 where r: "adjust_heap_loop xs 0 0 len = (xs1, h1, sc1)"
    by (cases "adjust_heap_loop xs 0 0 len") auto
  have "descended xs 0 len (adjust_heap_loop xs 0 0 len)"
    using heap len by (intro adjust_heap_loop_descended) simp_all
  then have "h1 = sc1 \<and> h1 < len \<and> \<not> h1 < (len - 1) div 2 \<and> length xs1 = length xs \<and>
        heap_on xs1 len \<and> (\<forall>v. mset (xs1[h1 := v]) = mset (xs[0 := v])) \<and>
        (\<forall>i\<ge>len. xs1 ! i = xs ! i)"
    unfolding descended_def r prod.case .
  then have d: "h1 = sc1" "h1 < len" "\<not> h1 < (len - 1) div 2" "length xs1 = length xs"
    "heap_on xs1 len" "\<And>v. mset (xs1[h1 := v]) = mset (xs[0 := v])"
    "\<And>i. len \<le> i \<Longrightarrow> xs1 ! i = xs ! i"
    by blast+
  show ?thesis
  proof (cases "len mod 2 = 0 \<and> sc1 = (len - 2) div 2")
    case True
    define l where "l = len - 1"
    have l: "2 * (sc1 + 1) - 1 = l" "l < len" "0 < l" "(l - 1) div 2 = h1" "h1 < l" "len \<le> 2 * l + 1"
      using True len d(1) unfolding l_def by arith+
    let ?xs2 = "xs1[h1 := xs1 ! l]"
    have eq: "adjust_heap xs 0 len v = push_heap_aux ?xs2 l 0 v"
      using True l(1) by (simp add: adjust_heap_def r Let_def)
    have big: "\<forall>i. 0 < i \<and> i < len \<and> (i - 1) div 2 = h1 \<longrightarrow> key (xs1 ! i) \<le> key (xs1 ! l)"
    proof (intro allI impI)
      fix i assume i: "0 < i \<and> i < len \<and> (i - 1) div 2 = h1"
      then have "i = l" using d(1) True unfolding l_def by presburger
      then show "key (xs1 ! i) \<le> key (xs1 ! l)" by simp
    qed
    have heap2: "heap_on ?xs2 len"
      using d l big len by (intro heap_on_move_child_up) simp_all
    have "heap_except (?xs2[l := v]) len l"
      using heap2 l len d by (intro leaf_heap_except) simp_all
    then have 1: "heap_on (push_heap_aux ?xs2 l 0 v) len"
      using l len d by (intro heap_push_heap_aux) simp_all
    have "mset (push_heap_aux ?xs2 l 0 v) = mset (?xs2[l := v])"
      using l len d by (intro mset_push_heap_aux) simp_all
    also have "\<dots> = mset (xs1[h1 := v])"
      using l len d by (intro mset_update_swap) simp_all
    finally have 2: "mset (push_heap_aux ?xs2 l 0 v) = mset (xs[0 := v])"
      using d by simp
    have 3: "\<forall>i\<ge>len. push_heap_aux ?xs2 l 0 v ! i = xs ! i"
      using l d by (simp add: nth_push_heap_aux)
    show ?thesis using 1 2 3 d by (simp add: eq length_push_heap_aux)
  next
    case False
    have leaf: "len \<le> 2 * h1 + 1" using False d(1,3) len by arith
    have eq: "adjust_heap xs 0 len v = push_heap_aux xs1 h1 0 v"
      unfolding adjust_heap_def r Let_def prod.case if_not_P [OF False] ..
    have "heap_except (xs1[h1 := v]) len h1"
      using d leaf len by (intro leaf_heap_except) simp_all
    then have 1: "heap_on (push_heap_aux xs1 h1 0 v) len"
      using len d by (intro heap_push_heap_aux) simp_all
    have 2: "mset (push_heap_aux xs1 h1 0 v) = mset (xs[0 := v])"
      using len d by (simp add: mset_push_heap_aux)
    have 3: "\<forall>i\<ge>len. push_heap_aux xs1 h1 0 v ! i = xs ! i"
      using d by (simp add: nth_push_heap_aux)
    show ?thesis using 1 2 3 d by (simp add: eq length_push_heap_aux)
  qed
qed

lemma heap_on_top: "heap_on xs n \<Longrightarrow> i < n \<Longrightarrow> key (xs ! i) \<le> key (xs ! 0)"
proof (induction i rule: less_induct)
  case (less i)
  show ?case
  proof (cases "i = 0")
    case True
    then show ?thesis by simp
  next
    case False
    define q where "q = (i - 1) div 2"
    have q: "q < i" unfolding q_def using False parent_less [of i] by simp
    have "key (xs ! i) \<le> key (xs ! q)"
      using less.prems False unfolding heap_on_def q_def by simp
    moreover have "key (xs ! q) \<le> key (xs ! 0)"
      using q less.prems by (intro less.IH) simp_all
    ultimately show ?thesis by simp
  qed
qed

lemma heap_on_append1:
  assumes "heap_on c (length c)"
  shows "heap_except ((c @ [x])[length c := v]) (Suc (length c)) (length c)"
proof -
  have "heap_on (c @ [x]) (Suc (length c)) \<or> True" by simp
  show ?thesis
    unfolding heap_except_def
  proof (intro conjI allI impI)
    fix i assume i: "0 < i \<and> i < Suc (length c) \<and> i \<noteq> length c"
    define q where "q = (i - 1) div 2"
    have q: "q < i" unfolding q_def using i parent_less [of i] by simp
    have "key (c ! i) \<le> key (c ! q)"
      using assms i unfolding heap_on_def q_def by simp
    then have "key ((c @ [x])[length c := v] ! i) \<le> key ((c @ [x])[length c := v] ! q)"
      using i q by (simp add: nth_append)
    then show "key ((c @ [x])[length c := v] ! i)
        \<le> key ((c @ [x])[length c := v] ! ((i - 1) div 2))" unfolding q_def .
  next
    fix i assume i: "0 < i \<and> i < Suc (length c) \<and> 0 < length c \<and> (i - 1) div 2 = length c"
    then have False by arith
    then show "key ((c @ [x])[length c := v] ! i)
        \<le> key ((c @ [x])[length c := v] ! ((length c - 1) div 2))" ..
  qed
qed

lemma priority_queue_push_correct:
  assumes "heap_on c (length c)"
  shows "heap_on (priority_queue_push c x) (length (priority_queue_push c x))"
    and "mset (priority_queue_push c x) = add_mset x (mset c)"
proof -
  have eq: "priority_queue_push c x = push_heap_aux (c @ [x]) (length c) 0 x"
    by (simp add: priority_queue_push_def push_heap_def)
  have "heap_on (push_heap_aux (c @ [x]) (length c) 0 x) (Suc (length c))"
    using heap_on_append1 [OF assms] by (intro heap_push_heap_aux) simp_all
  then show "heap_on (priority_queue_push c x) (length (priority_queue_push c x))"
    by (simp add: eq length_push_heap_aux)
  show "mset (priority_queue_push c x) = add_mset x (mset c)"
    by (simp add: eq mset_push_heap_aux)
qed

lemma heap_on_mono: "heap_on xs n \<Longrightarrow> m \<le> n \<Longrightarrow> heap_on xs m"
  unfolding heap_on_def by simp

lemma heap_on_cong: "heap_on xs n \<Longrightarrow> \<forall>i<n. ys ! i = xs ! i \<Longrightarrow> heap_on ys n"
  unfolding heap_on_def
proof (intro allI impI)
  fix i assume a: "\<forall>i. 0 < i \<and> i < n \<longrightarrow> key (xs ! i) \<le> key (xs ! ((i - 1) div 2))"
    "\<forall>i<n. ys ! i = xs ! i" and i: "0 < i \<and> i < n"
  define q where "q = (i - 1) div 2"
  have q: "q < i" unfolding q_def using i parent_less [of i] by simp
  have "key (xs ! i) \<le> key (xs ! q)" using a(1) i unfolding q_def by simp
  then have "key (ys ! i) \<le> key (ys ! q)" using a(2) i q by simp
  then show "key (ys ! i) \<le> key (ys ! ((i - 1) div 2))" unfolding q_def .
qed

lemma priority_queue_pop_single:
  "priority_queue_pop [x] = []"
  by (simp add: priority_queue_pop_def pop_heap_def)

lemma priority_queue_pop_correct:
  assumes heap: "heap_on c (length c)" and ne: "c \<noteq> []"
  shows "heap_on (priority_queue_pop c) (length (priority_queue_pop c)) \<and>
         mset (priority_queue_pop c) = mset c - {#c ! 0#}"
proof (cases "length c > 1")
  case False
  then obtain x where "c = [x]" using ne by (cases c) auto
  then show ?thesis
    by (simp add: priority_queue_pop_single heap_on_def)
next
  case True
  define n where "n = length c - 1"
  have n: "length c = Suc n" and n0: "0 < n" using True unfolding n_def by simp_all
  define c' where "c' = c[n := c ! 0]"
  define r where "r = adjust_heap c' 0 n (c ! n)"
  have pop: "pop_heap c = r"
    using True by (simp add: pop_heap_def r_def c'_def n_def Let_def)
  have lc': "length c' = Suc n" unfolding c'_def using n by simp
  have "heap_on c n"
    by (rule heap_on_mono [OF heap]) (simp add: n)
  then have "heap_on c' n"
    unfolding c'_def by (rule heap_on_cong [of c]) simp
  then have "heap_on r n \<and> mset r = mset (c'[0 := c ! n]) \<and> length r = length c' \<and>
      (\<forall>i\<ge>n. r ! i = c' ! i)"
    unfolding r_def using n0 lc' by (intro adjust_heap_correct) simp_all
  then have r1: "heap_on r n" and r2: "mset r = mset (c'[0 := c ! n])"
    and r3: "length r = length c'" and r4: "\<forall>i\<ge>n. r ! i = c' ! i"
    by blast+
  have lr: "length r = Suc n" using r3 lc' by simp
  have "r ! n = c' ! n" using r4 by simp
  then have rn: "r ! n = c ! 0" unfolding c'_def using n by simp
  have "mset (c'[0 := c ! n]) = mset c"
    unfolding c'_def using n n0 by (simp add: mset_update nth_list_update)
  then have mr: "mset r = mset c" using r2 by simp
  have rne: "r \<noteq> []" using lr by auto
  then have "butlast r @ [last r] = r" by (rule append_butlast_last_id)
  then have "mset (butlast r @ [last r]) = mset c" using mr by simp
  moreover have "last r = c ! 0" using rne lr rn by (simp add: last_conv_nth)
  ultimately have "add_mset (c ! 0) (mset (butlast r)) = mset c" by simp
  then have "mset c - {#c ! 0#} = mset (butlast r)"
    by (metis add_mset_remove_trivial)
  then have m: "mset (butlast r) = mset c - {#c ! 0#}" by simp
  have "heap_on (butlast r) n"
    using r1 by (rule heap_on_cong [of r]) (simp add: nth_butlast lr)
  then show ?thesis
    using m lr by (simp add: priority_queue_pop_def pop)
qed

lemma queue_state_heap: "queue_state True q \<Longrightarrow> heap_on q (length q)"
proof (induction rule: queue_state.induct)
  case queue_state_empty
  show ?case by (simp add: heap_on_def)
next
  case (queue_state_push q w)
  then show ?case by (simp add: WorkQueue_push_def priority_queue_push_correct(1))
next
  case (queue_state_pop q w q')
  then show ?case
    by (auto simp: WorkQueue_pop_def priority_queue_pop_correct split: if_splits)
qed

lemma key_le: "key a \<le> key b \<longleftrightarrow> priority a \<le>s priority b"
  by (simp add: key_def word_sle_eq)

lemma pop_priority_max:
  assumes "heap_on q (length q)" "q \<noteq> []"
  shows "\<exists>w q'. WorkQueue_pop True q = Some (w, q') \<and> w \<in> set q \<and>
           (\<forall>x\<in>set q. priority x \<le>s priority w) \<and> mset q' = mset q - {#w#} \<and>
           heap_on q' (length q') \<and> length q' = length q - 1"
proof -
  have top: "\<forall>x\<in>set q. priority x \<le>s priority (q ! 0)"
  proof
    fix x assume "x \<in> set q"
    then obtain i where "i < length q" "x = q ! i" by (auto simp: in_set_conv_nth)
    with heap_on_top [OF assms(1), of i] show "priority x \<le>s priority (q ! 0)"
      by (simp add: key_le)
  qed
  have m: "mset (priority_queue_pop q) = mset q - {#q ! 0#}"
    using priority_queue_pop_correct [OF assms] by simp
  have "size (mset (priority_queue_pop q)) = size (mset q) - 1"
    using assms(2) by (simp add: m size_Diff_singleton)
  then have l: "length (priority_queue_pop q) = length q - 1" by simp
  show ?thesis
    using assms top m l priority_queue_pop_correct [OF assms]
    by (simp add: WorkQueue_pop_def priority_queue_top_def)
qed

lemma pops_sorted:
  "heap_on q (length q) \<Longrightarrow> length q = n \<Longrightarrow>
   mset (pops True n q) = mset q \<and>
   sorted_wrt (\<lambda>a b. priority b \<le>s priority a) (pops True n q)"
proof (induction n arbitrary: q)
  case 0
  then show ?case by simp
next
  case (Suc n)
  then have "q \<noteq> []" by auto
  from pop_priority_max [OF Suc.prems(1) this] obtain w q' where
    p: "WorkQueue_pop True q = Some (w, q')" "w \<in> set q"
      "\<forall>x\<in>set q. priority x \<le>s priority w" "mset q' = mset q - {#w#}"
      "heap_on q' (length q')" "length q' = length q - 1"
    by blast
  have IH: "mset (pops True n q') = mset q'"
    "sorted_wrt (\<lambda>a b. priority b \<le>s priority a) (pops True n q')"
    using Suc.IH [of q'] p(5,6) Suc.prems(2) by simp_all
  have sub: "set q' \<subseteq> set q"
  proof
    fix x assume "x \<in> set q'"
    then have "x \<in># mset q - {#w#}" using p(4) by (simp flip: set_mset_mset)
    then have "x \<in># mset q" by (rule in_diffD)
    then show "x \<in> set q" by simp
  qed
  have "set (pops True n q') = set q'"
    using IH(1) by (rule mset_eq_setD)
  then have "\<forall>x\<in>set (pops True n q'). priority x \<le>s priority w"
    using sub p(3) by auto
  with IH p(1,2,4) show ?case by simp
qed

lemma sorted_returned_before:
  "sorted_wrt (\<lambda>a b. priority b \<le>s priority a) ws \<Longrightarrow> x \<in> set ws \<Longrightarrow>
   priority y <s priority x \<Longrightarrow> returned_before x y ws"
  unfolding returned_before_def
proof (induction ws)
  case Nil
  then show ?case by simp
next
  case (Cons w ws)
  show ?case
  proof (cases "w = y")
    case True
    with Cons.prems have "x \<in> set ws" by auto
    with Cons.prems(1) True have "priority x \<le>s priority y" by simp
    with Cons.prems(3) show ?thesis by (simp add: word_sle_eq word_sless_alt)
  next
    case False
    with Cons show ?thesis by auto
  qed
qed

lemma pops_fifo: "pops False n q = take n q"
proof (induction n arbitrary: q)
  case 0
  show ?case by simp
next
  case (Suc n)
  show ?case
    by (cases q) (simp_all add: WorkQueue_pop_def queue_front_def queue_pop_def Suc.IH)
qed

lemma pushes_fifo: "pushes False q ws = q @ ws"
  unfolding pushes_def
  by (induction ws arbitrary: q) (simp_all add: WorkQueue_push_def queue_push_def)

section \<open>The order in which the work queue returns its items\<close>

text \<open>
  Claim C2. In a priority-scheduling pool (\<open>EnablePriorityScheduling = true\<close>), in every
  state \<open>q\<close> of the work queue that is not empty, \<open>pop()\<close> is defined, returns an item of
  the queue whose priority is maximal among all queued items, and removes exactly that
  item. In particular, when two queued items \<open>x\<close> and \<open>y\<close> have priorities
  \<open>priority y < priority x\<close>, successive pops return \<open>x\<close> before \<open>y\<close>.
\<close>

theorem pop_returns_maximal_priority:
  assumes "queue_state True q" and "\<not> WorkQueue_empty q"
  shows "(\<exists>w q'. WorkQueue_pop True q = Some (w, q') \<and> w \<in> set q \<and>
            (\<forall>x\<in>set q. priority x \<le>s priority w) \<and> mset q' = mset q - {#w#}) \<and>
         (\<forall>x\<in>set q. \<forall>y\<in>set q. priority y <s priority x \<longrightarrow>
            returned_before x y (pops True (length q) q))"
proof -
  have heap: "heap_on q (length q)" using assms(1) by (rule queue_state_heap)
  have ne: "q \<noteq> []" using assms(2) by (simp add: WorkQueue_empty_def)
  have 1: "\<exists>w q'. WorkQueue_pop True q = Some (w, q') \<and> w \<in> set q \<and>
            (\<forall>x\<in>set q. priority x \<le>s priority w) \<and> mset q' = mset q - {#w#}"
    using pop_priority_max [OF heap ne] by blast
  have s: "mset (pops True (length q) q) = mset q \<and>
      sorted_wrt (\<lambda>a b. priority b \<le>s priority a) (pops True (length q) q)"
    using heap by (rule pops_sorted) simp
  then have "set (pops True (length q) q) = set q"
    using mset_eq_setD by blast
  with s have 2: "\<forall>x\<in>set q. \<forall>y\<in>set q. priority y <s priority x \<longrightarrow>
            returned_before x y (pops True (length q) q)"
    by (auto intro: sorted_returned_before)
  from 1 2 show ?thesis by (rule conjI)
qed

text \<open>
  The queue after \<open>push\<close> of a priority-1 item and then of a priority-5 item: \<open>pop\<close>
  returns the priority-5 item, and it is returned before the priority-1 item.
\<close>

theorem pop_returns_maximal_priority_witness:
  "queue_state True (WorkQueue_push True (WorkQueue_push True [] \<lparr>task = ''low'', priority = 1\<rparr>)
      \<lparr>task = ''high'', priority = 5\<rparr>) \<and>
   WorkQueue_pop True (WorkQueue_push True (WorkQueue_push True [] \<lparr>task = ''low'', priority = 1\<rparr>)
      \<lparr>task = ''high'', priority = 5\<rparr>) =
     Some (\<lparr>task = ''high'', priority = 5\<rparr>, [\<lparr>task = ''low'', priority = 1\<rparr>]) \<and>
   returned_before \<lparr>task = ''high'', priority = 5\<rparr> \<lparr>task = ''low'', priority = 1\<rparr>
     (pops True 2 (WorkQueue_push True (WorkQueue_push True [] \<lparr>task = ''low'', priority = 1\<rparr>)
      \<lparr>task = ''high'', priority = 5\<rparr>))"
proof -
  let ?lo = "\<lparr>task = ''low'', priority = 1 :: Priority\<rparr>"
  let ?hi = "\<lparr>task = ''high'', priority = 5 :: Priority\<rparr>"
  let ?q = "WorkQueue_push True (WorkQueue_push True [] ?lo) ?hi"
  have q: "?q = [?hi, ?lo]"
    by (simp add: WorkQueue_push_def priority_queue_push_def push_heap_def
        push_heap_aux.simps WorkItem_less_def word_sless_alt)
  have qs: "queue_state True ?q"
    by (intro queue_state.intros)
  have ne: "\<not> WorkQueue_empty ?q"
    by (simp add: q WorkQueue_empty_def)
  have pop: "WorkQueue_pop True ?q = Some (?hi, [?lo])"
    by (simp add: q WorkQueue_pop_def priority_queue_top_def priority_queue_pop_def pop_heap_def
        adjust_heap_def adjust_heap_loop.simps push_heap_aux.simps WorkItem_less_def
        word_sless_alt)
  have "\<forall>x\<in>set ?q. \<forall>y\<in>set ?q. priority y <s priority x \<longrightarrow>
      returned_before x y (pops True (length ?q) ?q)"
    using pop_returns_maximal_priority [OF qs ne] by (rule conjunct2)
  moreover have "?hi \<in> set ?q" "?lo \<in> set ?q" by (simp_all add: q)
  moreover have "priority ?lo <s priority ?hi" by (simp add: word_sless_alt)
  ultimately have "returned_before ?hi ?lo (pops True (length ?q) ?q)" by blast
  moreover have "length ?q = 2" by (simp add: q)
  ultimately have "returned_before ?hi ?lo (pops True 2 ?q)" by simp
  with qs pop show ?thesis by blast
qed

text \<open>
  Claim C3. In a FIFO pool (\<open>EnablePriorityScheduling = false\<close>), after pushing the items
  \<open>ws\<close> in order onto a queue holding \<open>q\<close>, \<open>n\<close> successive pops return the first \<open>n\<close>
  items of \<open>q @ ws\<close>: the items come out in exactly the order in which they were pushed,
  and popping as many items as were pushed onto an empty queue returns the pushed sequence.
\<close>

theorem fifo_pop_order:
  "pops False n (pushes False q ws) = take n (q @ ws) \<and>
   pops False (length ws) (pushes False [] ws) = ws"
  by (simp add: pops_fifo pushes_fifo)

text \<open>
  Claim C9. In a priority-scheduling pool, items of equal priority are not returned in
  insertion order: pushing \<open>a, b, c, d\<close> with one priority \<open>p\<close> (any value) onto an empty
  queue and popping four times returns \<open>a, c, b, d\<close>, which is not the order of the pushes.
\<close>

theorem equal_priority_not_insertion_order:
  "pops True 4 (pushes True []
     [\<lparr>task = ''a'', priority = p\<rparr>, \<lparr>task = ''b'', priority = p\<rparr>,
      \<lparr>task = ''c'', priority = p\<rparr>, \<lparr>task = ''d'', priority = p\<rparr>]) =
     [\<lparr>task = ''a'', priority = p\<rparr>, \<lparr>task = ''c'', priority = p\<rparr>,
      \<lparr>task = ''b'', priority = p\<rparr>, \<lparr>task = ''d'', priority = p\<rparr>] \<and>
   pops True 4 (pushes True []
     [\<lparr>task = ''a'', priority = p\<rparr>, \<lparr>task = ''b'', priority = p\<rparr>,
      \<lparr>task = ''c'', priority = p\<rparr>, \<lparr>task = ''d'', priority = p\<rparr>]) \<noteq>
     [\<lparr>task = ''a'', priority = p\<rparr>, \<lparr>task = ''b'', priority = p\<rparr>,
      \<lparr>task = ''c'', priority = p\<rparr>, \<lparr>task = ''d'', priority = p\<rparr>]"
proof -
  let ?a = "\<lparr>task = ''a'', priority = p\<rparr>"
  let ?b = "\<lparr>task = ''b'', priority = p\<rparr>"
  let ?c = "\<lparr>task = ''c'', priority = p\<rparr>"
  let ?d = "\<lparr>task = ''d'', priority = p\<rparr>"
  have less: "\<not> WorkItem_less \<lparr>task = s, priority = p\<rparr> \<lparr>task = t, priority = p\<rparr>" for s t :: string
    by (simp add: WorkItem_less_def)
  have q: "pushes True [] [?a, ?b, ?c, ?d] = [?a, ?b, ?c, ?d]"
    by (simp add: pushes_def WorkQueue_push_def priority_queue_push_def push_heap_def
        push_heap_aux.simps less)
  have p1: "WorkQueue_pop True [?a, ?b, ?c, ?d] = Some (?a, [?c, ?b, ?d])"
    by (simp add: WorkQueue_pop_def priority_queue_top_def priority_queue_pop_def pop_heap_def
        adjust_heap_def adjust_heap_loop.simps push_heap_aux.simps less)
  have p2: "WorkQueue_pop True [?c, ?b, ?d] = Some (?c, [?b, ?d])"
    by (simp add: WorkQueue_pop_def priority_queue_top_def priority_queue_pop_def pop_heap_def
        adjust_heap_def adjust_heap_loop.simps push_heap_aux.simps less)
  have p3: "WorkQueue_pop True [?b, ?d] = Some (?b, [?d])"
    by (simp add: WorkQueue_pop_def priority_queue_top_def priority_queue_pop_def pop_heap_def
        adjust_heap_def adjust_heap_loop.simps push_heap_aux.simps less)
  have p4: "WorkQueue_pop True [?d] = Some (?d, [])"
    by (simp add: WorkQueue_pop_def priority_queue_top_def priority_queue_pop_def pop_heap_def)
  have "pops True 4 [?a, ?b, ?c, ?d] = [?a, ?c, ?b, ?d]"
    by (simp add: numeral_eq_Suc p1 p2 p3 p4)
  then show ?thesis by (simp add: q)
qed

end
